theory Spec2Isabelle
  imports Complex_Main "HOL-Library.Word"
begin

unbundle bit_operations_syntax

section \<open>Data model of bloomfilter.go\<close>

text \<open>
  Go's \<^verbatim>\<open>uint64\<close>, \<^verbatim>\<open>uint32\<close> and \<^verbatim>\<open>byte\<close> are words of that width: addition
  wraps, shifts drop the bits that leave the word. A slice is a list; \<^verbatim>\<open>len\<close> of a
  slice is a non-negative \<^verbatim>\<open>int\<close> below \<open>2^63\<close>, so the conversion
  \<^verbatim>\<open>uint64(len(f.keys))\<close> never wraps and \<open>K\<close> is kept as the length itself.
  Allocation is assumed to succeed (memory is not bounded in the model).
\<close>

type_synonym u8 = "8 word"
type_synonym u32 = "32 word"
type_synonym u64 = "64 word"

text \<open>Run-time panics (the two explicit ones of \<^verbatim>\<open>New\<close>, and the two the Go runtime
  raises for \<^verbatim>\<open>%\<close> by zero and for an index outside a slice) and returned errors.\<close>

datatype panic = PanicM | PanicK | DivideByZero | IndexOutOfRange

datatype error = ErrIncompatible | EOF | ErrUnexpectedEOF | ErrInvalidType

text \<open>A \<^verbatim>\<open>Hashable\<close> is used only through the one value its method returns.\<close>

datatype Hashable = Hashable (BloomFilterHash: u64)

record Filter =
  bits :: "u64 list"
  keys :: "u64 list"
  m :: u64
  n :: u64

definition M :: "Filter \<Rightarrow> u64" where
  "M f = m f"

definition K :: "Filter \<Rightarrow> nat" where
  "K f = length (keys f)"

definition N :: "Filter \<Rightarrow> u64" where
  "N f = n f"

section \<open>Construction\<close>

text \<open>\<^verbatim>\<open>newKeys\<close> draws two 32-bit values per key from a freshly seeded generator;
  \<open>r\<close> is the sequence of values that generator returns, the high half drawn first.\<close>

definition newKeys :: "(nat \<Rightarrow> u32) \<Rightarrow> u64 \<Rightarrow> u64 list" where
  "newKeys r k =
     map (\<lambda>i. push_bit 32 (ucast (r (2 * i))) OR ucast (r (2 * i + 1))) [0..<unat k]"

definition New :: "(nat \<Rightarrow> u32) \<Rightarrow> u64 \<Rightarrow> u64 \<Rightarrow> panic + Filter" where
  "New r m0 k =
     (if m0 \<le> 1 then Inl PanicM
      else if k = 0 then Inl PanicK
      else Inr \<lparr>bits = replicate (unat (drop_bit 6 (m0 + 63))) 0,
                keys = newKeys r k,
                m = m0,
                n = 0\<rparr>)"

section \<open>Hashing\<close>

definition hash :: "Filter \<Rightarrow> Hashable \<Rightarrow> u64 list" where
  "hash f v = (let rawHash = BloomFilterHash v in map (\<lambda>k. rawHash XOR k) (keys f))"

section \<open>Compatibility, copy and union\<close>

fun IsCompatible_loop :: "u64 list \<Rightarrow> u64 list \<Rightarrow> nat list \<Rightarrow> bool" where
  "IsCompatible_loop ks ks2 [] = True"
| "IsCompatible_loop ks ks2 (i # is) =
     (if ks ! i \<noteq> ks2 ! i then False else IsCompatible_loop ks ks2 is)"

text \<open>The loop indexes \<^verbatim>\<open>f2.keys\<close> with the indices of \<^verbatim>\<open>f.keys\<close>; it is reached only
  when both have the same length, so every index is in range.\<close>

definition IsCompatible :: "Filter \<Rightarrow> Filter \<Rightarrow> bool" where
  "IsCompatible f f2 =
     (if M f \<noteq> M f2 \<or> K f \<noteq> K f2 then False
      else IsCompatible_loop (keys f) (keys f2) [0..<length (keys f)])"

text \<open>Go's builtin \<^verbatim>\<open>copy(dst, src)\<close> overwrites the first
  \<open>min (len dst) (len src)\<close> elements of \<open>dst\<close>.\<close>

definition copy_slice :: "'a list \<Rightarrow> 'a list \<Rightarrow> 'a list" where
  "copy_slice dst src = take (length dst) src @ drop (length src) dst"

definition Copy :: "Filter \<Rightarrow> Filter" where
  "Copy f =
     \<lparr>bits = copy_slice (replicate (unat (drop_bit 6 (m f + 63))) 0) (bits f),
      keys = copy_slice (replicate (K f) 0) (keys f),
      m = m f,
      n = n f\<rparr>"

fun Union_loop :: "u64 list \<Rightarrow> nat \<Rightarrow> u64 list \<Rightarrow> panic + u64 list" where
  "Union_loop ob i [] = Inr ob"
| "Union_loop ob i (x # xs) =
     (if i < length ob then Union_loop (ob[i := ob ! i OR x]) (Suc i) xs
      else Inl IndexOutOfRange)"

text \<open>\<^verbatim>\<open>Union\<close> returns either an error or the new filter; receiver and argument are
  passed by value and the only slice written is the fresh copy's.\<close>

definition Union_filter :: "Filter \<Rightarrow> Filter \<Rightarrow> panic + (error + Filter)" where
  "Union_filter f f2 =
     (if \<not> IsCompatible f f2 then Inr (Inl ErrIncompatible)
      else let out = Copy f in
        case Union_loop (bits out) 0 (bits f2) of
          Inl p \<Rightarrow> Inl p
        | Inr b \<Rightarrow> Inr (Inr (out\<lparr>bits := b\<rparr>)))"

section \<open>Bit access\<close>

definition getBit :: "Filter \<Rightarrow> u64 \<Rightarrow> panic + bool" where
  "getBit f i =
     (if i \<ge> m f \<and> m f = 0 then Inl DivideByZero
      else let i = (if i \<ge> m f then i mod m f else i);
               w = unat (drop_bit 6 i)
           in if w < length (bits f)
              then Inr (drop_bit (unat (i AND 0x3f)) (bits f ! w) \<noteq> 0)
              else Inl IndexOutOfRange)"

definition setBit :: "Filter \<Rightarrow> u64 \<Rightarrow> panic + Filter" where
  "setBit f i =
     (if i \<ge> m f \<and> m f = 0 then Inl DivideByZero
      else let i = (if i \<ge> m f then i mod m f else i);
               w = unat (drop_bit 6 i)
           in if w < length (bits f)
              then Inr (f\<lparr>bits := (bits f)[w := bits f ! w OR push_bit (unat (i AND 0x3f)) 1]\<rparr>)
              else Inl IndexOutOfRange)"

section \<open>Insertion and membership\<close>

fun Add_loop :: "Filter \<Rightarrow> u64 list \<Rightarrow> panic + Filter" where
  "Add_loop f [] = Inr f"
| "Add_loop f (k # ks) =
     (case setBit f k of Inl p \<Rightarrow> Inl p | Inr f' \<Rightarrow> Add_loop f' ks)"

definition Add :: "Filter \<Rightarrow> Hashable \<Rightarrow> panic + Filter" where
  "Add f v =
     (case Add_loop f (hash f v) of
        Inl p \<Rightarrow> Inl p
      | Inr f' \<Rightarrow> Inr (f'\<lparr>n := n f' + 1\<rparr>))"

fun Contains_loop :: "Filter \<Rightarrow> u64 list \<Rightarrow> panic + bool" where
  "Contains_loop f [] = Inr True"
| "Contains_loop f (k # ks) =
     (case getBit f k of
        Inl p \<Rightarrow> Inl p
      | Inr b \<Rightarrow> if \<not> b then Inr False else Contains_loop f ks)"

definition Contains :: "Filter \<Rightarrow> Hashable \<Rightarrow> panic + bool" where
  "Contains f v = Contains_loop f (hash f v)"

text \<open>A sequence of \<^verbatim>\<open>Add\<close> calls on the same filter.\<close>

fun Adds :: "Filter \<Rightarrow> Hashable list \<Rightarrow> panic + Filter" where
  "Adds f [] = Inr f"
| "Adds f (v # vs) = (case Add f v of Inl p \<Rightarrow> Inl p | Inr f' \<Rightarrow> Adds f' vs)"

section \<open>Parameter sizing\<close>

text \<open>
  \<^verbatim>\<open>OptimalM\<close> computes in \<^verbatim>\<open>float64\<close>. Each arithmetic operation returns the exact
  result rounded to a \<^verbatim>\<open>float64\<close>, and \<^verbatim>\<open>math.Log\<close> returns an approximation of the
  natural logarithm; neither is fixed here. The model takes the rounding \<open>fl\<close> and
  the function \<open>Log\<close> as parameters and a \<^verbatim>\<open>float64\<close> as the real number it stands
  for. What the proofs use of the two is stated by \<open>rounds\<close> and
  \<open>approximates_ln\<close>: a relative error of at most \<open>1/10000\<close> for magnitudes
  between \<open>1/1000\<close> and \<open>1000\<close>. Rounding to the nearest \<^verbatim>\<open>float64\<close> has a
  relative error of at most \<open>2^-53\<close> there, and \<^verbatim>\<open>math.Log\<close> is accurate to the last
  digits of its result.
\<close>

definition rounds :: "(real \<Rightarrow> real) \<Rightarrow> bool" where
  "rounds fl \<longleftrightarrow>
     (\<forall>x. 1 / 1000 \<le> \<bar>x\<bar> \<and> \<bar>x\<bar> \<le> 1000 \<longrightarrow> \<bar>fl x - x\<bar> \<le> \<bar>x\<bar> / 10000)"

definition approximates_ln :: "(real \<Rightarrow> real) \<Rightarrow> bool" where
  "approximates_ln Log \<longleftrightarrow>
     (\<forall>p. 1 / 1000 \<le> p \<and> p \<le> 1000 \<longrightarrow> \<bar>Log p - ln p\<bar> \<le> \<bar>ln p\<bar> / 10000)"

text \<open>
  \<^verbatim>\<open>uint64(math.Ceil(-float64(maxN) * math.Log(p) / math.Ln2 * math.Ln2))\<close>. Go's
  \<^verbatim>\<open>*\<close> and \<^verbatim>\<open>/\<close> have the same precedence and associate to the left: the product
  is divided by \<^verbatim>\<open>math.Ln2\<close> and the quotient multiplied by \<^verbatim>\<open>math.Ln2\<close>, with a
  rounding after each step. \<^verbatim>\<open>math.Ln2\<close> is \<open>ln 2\<close> written to 36 digits and becomes
  a \<^verbatim>\<open>float64\<close> where it is used; the conversion of \<^verbatim>\<open>maxN\<close> rounds as well, the
  negation and \<^verbatim>\<open>math.Ceil\<close> are exact. The result is \<open>None\<close> when the ceiling is
  outside \<^verbatim>\<open>uint64\<close>, where Go leaves the conversion to the implementation.
\<close>

definition OptimalM :: "(real \<Rightarrow> real) \<Rightarrow> (real \<Rightarrow> real) \<Rightarrow> u64 \<Rightarrow> real \<Rightarrow> u64 option" where
  "OptimalM fl Log maxN p =
     (let Ln2 = fl (ln 2);
          c = \<lceil>fl (fl (fl (- fl (real (unat maxN)) * Log p) / Ln2) * Ln2)\<rceil>
      in if 0 \<le> c \<and> c < 2 ^ 64 then Some (word_of_int c) else None)"

text \<open>The formula as the specification words it, \<open>ceil(-maxN * ln(p) * ln(2))\<close>, and
  the formula in the comment above \<^verbatim>\<open>OptimalM\<close> in the source,
  \<open>ceiling(-n * ln(p) / ln(2)**2)\<close>, both in exact arithmetic.\<close>

definition OptimalM_spec :: "u64 \<Rightarrow> real \<Rightarrow> int" where
  "OptimalM_spec maxN p = \<lceil>- real (unat maxN) * ln p * ln 2\<rceil>"

definition OptimalM_comment :: "u64 \<Rightarrow> real \<Rightarrow> int" where
  "OptimalM_comment maxN p = \<lceil>- real (unat maxN) * ln p / (ln 2)\<^sup>2\<rceil>"

section \<open>Binary encoding\<close>

text \<open>
  The parts of \<^verbatim>\<open>encoding/binary\<close> and \<^verbatim>\<open>io\<close> the filter calls, for the three kinds
  of argument it passes as \<^verbatim>\<open>data interface{}\<close>: a \<^verbatim>\<open>uint32\<close> value, a \<^verbatim>\<open>uint64\<close>
  value and a \<^verbatim>\<open>[]uint64\<close> slice. The byte buffer is the list of bytes not yet read
  (for \<open>binary_Read\<close>) or written so far (for \<open>binary_Write\<close>).
\<close>

datatype data = Uint32 u32 | Uint64 u64 | Uint64s "u64 list"

fun uint64s :: "data \<Rightarrow> u64 list" where
  "uint64s (Uint64s xs) = xs"
| "uint64s _ = []"

definition PutUint32 :: "u32 \<Rightarrow> u8 list" where
  "PutUint32 v = map (\<lambda>j. ucast (drop_bit (8 * j) v)) [0..<4]"

definition PutUint64 :: "u64 \<Rightarrow> u8 list" where
  "PutUint64 v = map (\<lambda>j. ucast (drop_bit (8 * j) v)) [0..<8]"

definition Uint64_le :: "u8 list \<Rightarrow> u64" where
  "Uint64_le b = foldr (\<lambda>x acc. ucast x OR push_bit 8 acc) (take 8 b) 0"

text \<open>\<^verbatim>\<open>binary.Write\<close> accepts fixed-size values and slices of them; writing to a
  \<^verbatim>\<open>bytes.Buffer\<close> does not fail.\<close>

fun binary_Write :: "u8 list \<Rightarrow> data \<Rightarrow> error + u8 list" where
  "binary_Write buf (Uint32 v) = Inr (buf @ PutUint32 v)"
| "binary_Write buf (Uint64 v) = Inr (buf @ PutUint64 v)"
| "binary_Write buf (Uint64s vs) = Inr (buf @ concat (map PutUint64 vs))"

text \<open>\<^verbatim>\<open>io.ReadFull\<close> on a buffer: \<^verbatim>\<open>io.EOF\<close> when bytes are wanted and none is left,
  \<^verbatim>\<open>io.ErrUnexpectedEOF\<close> when some but too few are left. The result is the bytes read
  and the rest of the buffer.\<close>

definition io_ReadFull :: "u8 list \<Rightarrow> nat \<Rightarrow> error + (u8 list \<times> u8 list)" where
  "io_ReadFull buf cnt =
     (if cnt = 0 then Inr ([], buf)
      else if buf = [] then Inl EOF
      else if length buf < cnt then Inl ErrUnexpectedEOF
      else Inr (take cnt buf, drop cnt buf))"

text \<open>
  \<^verbatim>\<open>binary.Read\<close> stores through \<^verbatim>\<open>data\<close>, which has to be a pointer to a fixed-size
  value or a slice of fixed-size values. For a slice it reads eight bytes per element and
  fills the slice. For a plain integer value there is nothing to store through: after
  taking the value's size in bytes from the reader it returns the error
  \<^verbatim>\<open>binary.Read: invalid type\<close>. The result is the rest of the buffer and the slice as
  filled.
\<close>

fun binary_Read :: "u8 list \<Rightarrow> data \<Rightarrow> error + (u8 list \<times> data)" where
  "binary_Read buf (Uint32 v) =
     (case io_ReadFull buf 4 of Inl err \<Rightarrow> Inl err | Inr _ \<Rightarrow> Inl ErrInvalidType)"
| "binary_Read buf (Uint64 v) =
     (case io_ReadFull buf 8 of Inl err \<Rightarrow> Inl err | Inr _ \<Rightarrow> Inl ErrInvalidType)"
| "binary_Read buf (Uint64s vs) =
     (case io_ReadFull buf (8 * length vs) of
        Inl err \<Rightarrow> Inl err
      | Inr (bs, rest) \<Rightarrow>
          Inr (rest, Uint64s (map (\<lambda>i. Uint64_le (drop (8 * i) bs)) [0..<length vs])))"

text \<open>\<^verbatim>\<open>MarshalBinary\<close> returns the bytes and the error; on an error the bytes are the
  empty slice allocated at the start.\<close>

definition MarshalBinary :: "Filter \<Rightarrow> u8 list \<times> error option" where
  "MarshalBinary f =
     (let k = (word_of_nat (K f) :: u64); buf = [] in
      case binary_Write buf (Uint64 k) of Inl err \<Rightarrow> ([], Some err) | Inr buf \<Rightarrow>
      case binary_Write buf (Uint64 (n f)) of Inl err \<Rightarrow> ([], Some err) | Inr buf \<Rightarrow>
      case binary_Write buf (Uint64 (m f)) of Inl err \<Rightarrow> ([], Some err) | Inr buf \<Rightarrow>
      case binary_Write buf (Uint64s (keys f)) of Inl err \<Rightarrow> ([], Some err) | Inr buf \<Rightarrow>
      case binary_Write buf (Uint64s (bits f)) of Inl err \<Rightarrow> ([], Some err) | Inr buf \<Rightarrow>
      (buf, None))"

text \<open>
  \<^verbatim>\<open>UnmarshalBinary\<close> has a pointer receiver: the result is the receiver after the call
  and the error. \<^verbatim>\<open>k\<close>, \<^verbatim>\<open>f.n\<close> and \<^verbatim>\<open>f.m\<close> are handed to \<^verbatim>\<open>binary.Read\<close> by value, so
  no call can change them: \<^verbatim>\<open>k\<close> keeps its initial value 0 and the bit array is
  allocated with \<^verbatim>\<open>f.n\<close> words.
\<close>

definition UnmarshalBinary :: "Filter \<Rightarrow> u8 list \<Rightarrow> Filter \<times> error option" where
  "UnmarshalBinary f data0 =
     (let k = (0 :: u32); buf = data0 in
      case binary_Read buf (Uint32 k) of Inl err \<Rightarrow> (f, Some err) | Inr (buf, _) \<Rightarrow>
      case binary_Read buf (Uint64 (n f)) of Inl err \<Rightarrow> (f, Some err) | Inr (buf, _) \<Rightarrow>
      case binary_Read buf (Uint64 (m f)) of Inl err \<Rightarrow> (f, Some err) | Inr (buf, _) \<Rightarrow>
      let f = f\<lparr>keys := replicate (unat k) 0\<rparr> in
      case binary_Read buf (Uint64s (keys f)) of Inl err \<Rightarrow> (f, Some err) | Inr (buf, d) \<Rightarrow>
      let f = f\<lparr>keys := uint64s d\<rparr>;
          f = f\<lparr>bits := replicate (unat (n f)) 0\<rparr> in
      case binary_Read buf (Uint64s (bits f)) of Inl err \<Rightarrow> (f, Some err) | Inr (buf, d) \<Rightarrow>
      (f\<lparr>bits := uint64s d\<rparr>, None))"

section \<open>Properties used in the proofs\<close>

text \<open>The index \<^verbatim>\<open>getBit\<close> and \<^verbatim>\<open>setBit\<close> address after their wrap-around step.\<close>

definition wrap :: "Filter \<Rightarrow> u64 \<Rightarrow> u64" where
  "wrap f i = (if i \<ge> m f then i mod m f else i)"

text \<open>Every wrapped index falls inside the bit array.\<close>

definition addressable :: "Filter \<Rightarrow> bool" where
  "addressable f \<longleftrightarrow> m f \<noteq> 0 \<and> unat (m f) \<le> 64 * length (bits f)"

text \<open>The invariants of the data model: \<open>m \<ge> 2\<close>, at least one key, and
  \<open>ceil(m/64)\<close> words in the bit array.\<close>

definition invariant :: "Filter \<Rightarrow> bool" where
  "invariant f \<longleftrightarrow> 1 < m f \<and> keys f \<noteq> [] \<and> length (bits f) = (unat (m f) + 63) div 64"

text \<open>\<open>g\<close> has the parameters of \<open>f\<close> and every bit that is set in \<open>f\<close>.\<close>

definition extends :: "Filter \<Rightarrow> Filter \<Rightarrow> bool" where
  "extends f g \<longleftrightarrow>
     m g = m f \<and> keys g = keys f \<and> length (bits g) = length (bits f) \<and>
     (\<forall>j<length (bits f). bits f ! j OR bits g ! j = bits g ! j)"

section \<open>Bit access inside the bit array\<close>

lemma shift_lt_64: "unat ((i :: u64) AND 0x3f) < 64"
proof -
  have "(i AND 0x3f) \<le> 0x3f" by (rule word_and_le1)
  then have "unat (i AND 0x3f) \<le> unat (0x3f :: u64)" by (simp add: word_le_nat_alt)
  then show ?thesis by simp
qed

lemma drop_set_nonzero: "sh < 64 \<Longrightarrow> drop_bit sh ((w :: u64) OR push_bit sh 1) \<noteq> 0"
proof
  assume sh: "sh < 64" and z: "drop_bit sh (w OR push_bit sh 1) = 0"
  have "bit (drop_bit sh (w OR push_bit sh 1)) 0"
    using sh by (simp add: bit_simps)
  with z show False by simp
qed

lemma drop_or_nonzero: "drop_bit sh (w :: u64) \<noteq> 0 \<Longrightarrow> drop_bit sh (w OR x) \<noteq> 0"
  by (simp add: or_eq_0_iff)

lemma wrap_less: "m f \<noteq> 0 \<Longrightarrow> wrap f i < m f"
  by (simp add: wrap_def word_mod_less_divisor word_neq_0_conv not_le)

lemma word_index_in_range:
  assumes "addressable f"
  shows "unat (drop_bit 6 (wrap f i)) < length (bits f)"
proof -
  from assms have "wrap f i < m f" by (simp add: addressable_def wrap_less)
  then have "unat (wrap f i) < unat (m f)" by (simp add: word_less_nat_alt)
  with assms have "unat (wrap f i) < 64 * length (bits f)" by (simp add: addressable_def)
  then have "unat (wrap f i) div 64 < length (bits f)" by (simp add: less_mult_imp_div_less mult.commute)
  then show ?thesis by (simp add: drop_bit_eq_div unat_div)
qed

lemma getBit_addressable:
  "addressable f \<Longrightarrow>
     getBit f i = Inr (drop_bit (unat (wrap f i AND 0x3f)) (bits f ! unat (drop_bit 6 (wrap f i))) \<noteq> 0)"
  using word_index_in_range [of f i]
  by (simp add: getBit_def wrap_def addressable_def Let_def)

lemma setBit_addressable:
  "addressable f \<Longrightarrow>
     setBit f i = Inr (f\<lparr>bits := (bits f)[unat (drop_bit 6 (wrap f i)) :=
        bits f ! unat (drop_bit 6 (wrap f i)) OR push_bit (unat (wrap f i AND 0x3f)) 1]\<rparr>)"
  using word_index_in_range [of f i]
  by (simp add: setBit_def wrap_def addressable_def Let_def)

lemma invariant_addressable: "invariant f \<Longrightarrow> addressable f"
proof -
  assume a: "invariant f"
  have "unat (m f) \<le> 64 * ((unat (m f) + 63) div 64)" by arith
  moreover from a have "m f \<noteq> 0" by (auto simp: invariant_def)
  ultimately show ?thesis using a by (simp add: invariant_def addressable_def)
qed

section \<open>Filters only gain bits\<close>

lemma extends_refl: "extends f f"
  by (simp add: extends_def)

lemma extends_trans: "extends f g \<Longrightarrow> extends g h \<Longrightarrow> extends f h"
  unfolding extends_def
  by (metis (no_types, lifting) or.assoc)

lemma extends_addressable: "extends f g \<Longrightarrow> addressable f \<Longrightarrow> addressable g"
  by (simp add: extends_def addressable_def)

lemma extends_invariant: "extends f g \<Longrightarrow> invariant f \<Longrightarrow> invariant g"
  by (simp add: extends_def invariant_def)

lemma extends_wrap: "extends f g \<Longrightarrow> wrap g i = wrap f i"
  by (simp add: extends_def wrap_def)

lemma extends_hash: "extends f g \<Longrightarrow> hash g v = hash f v"
  by (simp add: extends_def hash_def)

lemma extends_n_update: "extends f g \<Longrightarrow> extends f (g\<lparr>n := x\<rparr>)"
  by (simp add: extends_def)

lemma extends_getBit:
  assumes e: "extends f g" and a: "addressable f" and t: "getBit f i = Inr True"
  shows "getBit g i = Inr True"
proof -
  let ?w = "unat (drop_bit 6 (wrap f i))"
  let ?s = "unat (wrap f i AND 0x3f)"
  from a have w: "?w < length (bits f)" by (rule word_index_in_range)
  from t a have "drop_bit ?s (bits f ! ?w) \<noteq> 0" by (simp add: getBit_addressable)
  then have "drop_bit ?s (bits f ! ?w OR bits g ! ?w) \<noteq> 0" by (rule drop_or_nonzero)
  moreover from e w have "bits f ! ?w OR bits g ! ?w = bits g ! ?w" by (simp add: extends_def)
  ultimately have "drop_bit ?s (bits g ! ?w) \<noteq> 0" by simp
  moreover from e a have "addressable g" by (rule extends_addressable)
  ultimately show ?thesis using e by (simp add: getBit_addressable extends_wrap)
qed

lemma Contains_loop_True_iff:
  "addressable f \<Longrightarrow> Contains_loop f hs = Inr True \<longleftrightarrow> (\<forall>h\<in>set hs. getBit f h = Inr True)"
  by (induction hs) (auto simp: getBit_addressable)

lemma extends_Contains:
  "extends f g \<Longrightarrow> addressable f \<Longrightarrow> Contains f v = Inr True \<Longrightarrow> Contains g v = Inr True"
  by (simp add: Contains_def extends_hash Contains_loop_True_iff extends_addressable extends_getBit)

lemma or_list_update:
  "j < length xs \<Longrightarrow> xs ! j OR (xs[w := xs ! w OR (b :: u64)]) ! j = (xs[w := xs ! w OR b]) ! j"
  by (cases "j = w") (simp_all add: or.left_idem)

lemma setBit_extends:
  assumes a: "addressable f"
  shows "\<exists>g. setBit f i = Inr g \<and> extends f g \<and> getBit g i = Inr True"
proof -
  let ?w = "unat (drop_bit 6 (wrap f i))"
  let ?s = "unat (wrap f i AND 0x3f)"
  let ?g = "f\<lparr>bits := (bits f)[?w := bits f ! ?w OR push_bit ?s 1]\<rparr>"
  from a have w: "?w < length (bits f)" by (rule word_index_in_range)
  from a have s: "setBit f i = Inr ?g" by (rule setBit_addressable)
  have e: "extends f ?g"
    by (simp add: extends_def or_list_update)
  from e a have ag: "addressable ?g" by (rule extends_addressable)
  have "?s < 64" by (rule shift_lt_64)
  then have nz: "drop_bit ?s (bits f ! ?w OR push_bit ?s 1) \<noteq> 0" by (rule drop_set_nonzero)
  have wg: "wrap ?g i = wrap f i" by (rule extends_wrap [OF e])
  from w have bw: "bits ?g ! ?w = bits f ! ?w OR push_bit ?s 1" by simp
  have "getBit ?g i = Inr (drop_bit ?s (bits ?g ! ?w) \<noteq> 0)"
    using getBit_addressable [OF ag, of i] by (simp only: wg)
  also have "\<dots> = Inr True" using nz by (simp only: bw simp_thms)
  finally have "getBit ?g i = Inr True" .
  with s e show ?thesis by blast
qed

lemma Add_loop_extends:
  "addressable f \<Longrightarrow>
     \<exists>g. Add_loop f hs = Inr g \<and> extends f g \<and> (\<forall>h\<in>set hs. getBit g h = Inr True)"
proof (induction hs arbitrary: f)
  case Nil
  then show ?case by (simp add: extends_refl)
next
  case (Cons h hs)
  from setBit_extends [OF Cons.prems, of h]
  obtain f1 where s: "setBit f h = Inr f1" and e1: "extends f f1" and b: "getBit f1 h = Inr True"
    by blast
  from e1 Cons.prems have a1: "addressable f1" by (rule extends_addressable)
  from Cons.IH [OF a1]
  obtain g where l: "Add_loop f1 hs = Inr g" and e2: "extends f1 g"
    and bs: "\<forall>h\<in>set hs. getBit g h = Inr True" by blast
  from e2 a1 b have "getBit g h = Inr True" by (rule extends_getBit)
  moreover from e1 e2 have "extends f g" by (rule extends_trans)
  ultimately show ?case using s l bs by simp
qed

lemma Add_extends:
  assumes a: "addressable f"
  shows "\<exists>g. Add f v = Inr g \<and> extends f g \<and> Contains g v = Inr True"
proof -
  from Add_loop_extends [OF a, of "hash f v"]
  obtain g where l: "Add_loop f (hash f v) = Inr g" and e: "extends f g"
    and bs: "\<forall>h\<in>set (hash f v). getBit g h = Inr True" by blast
  let ?g = "g\<lparr>n := n g + 1\<rparr>"
  from e have e': "extends f ?g" by (rule extends_n_update)
  from e' a have a': "addressable ?g" by (rule extends_addressable)
  from e a have ag: "addressable g" by (rule extends_addressable)
  have "extends g ?g" by (rule extends_n_update [OF extends_refl])
  with bs ag have "\<forall>h\<in>set (hash f v). getBit ?g h = Inr True"
    by (blast intro: extends_getBit)
  then have "Contains ?g v = Inr True"
    by (simp add: Contains_def extends_hash [OF e'] Contains_loop_True_iff [OF a'])
  with l e' show ?thesis by (simp add: Add_def)
qed

lemma Adds_extends: "addressable f \<Longrightarrow> \<exists>g. Adds f vs = Inr g \<and> extends f g"
proof (induction vs arbitrary: f)
  case Nil
  then show ?case by (simp add: extends_refl)
next
  case (Cons v vs)
  from Add_extends [OF Cons.prems, of v]
  obtain f1 where s: "Add f v = Inr f1" and e1: "extends f f1" by blast
  from e1 Cons.prems have a1: "addressable f1" by (rule extends_addressable)
  from Cons.IH [OF a1] obtain g where "Adds f1 vs = Inr g" and "extends f1 g" by blast
  with s e1 show ?case by (auto intro: extends_trans)
qed

lemma Add_invariant: "invariant f \<Longrightarrow> \<exists>g. Add f v = Inr g \<and> invariant g"
  using Add_extends [OF invariant_addressable, of f v] by (blast intro: extends_invariant)

text \<open>  C1, no false negatives. On a filter that satisfies the invariants of the data model,
  \<^verbatim>\<open>Add(e)\<close> returns, \<^verbatim>\<open>Contains(e)\<close> is then true, and it is still true after any
  finite sequence of further \<^verbatim>\<open>Add\<close> calls with arbitrary elements; none of these
  calls panics.\<close>

theorem Add_Contains_no_false_negative:
  assumes "invariant f"
  shows "\<exists>f'. Add f e = Inr f' \<and> Contains f' e = Inr True \<and>
           (\<forall>vs. \<exists>f''. Adds f' vs = Inr f'' \<and> Contains f'' e = Inr True)"
proof -
  from assms have a: "addressable f" by (rule invariant_addressable)
  from Add_extends [OF a, of e]
  obtain f' where s: "Add f e = Inr f'" and x: "extends f f'" and c: "Contains f' e = Inr True"
    by blast
  from x a have a': "addressable f'" by (rule extends_addressable)
  have "\<exists>f''. Adds f' vs = Inr f'' \<and> Contains f'' e = Inr True" for vs
  proof -
    from Adds_extends [OF a', of vs]
    obtain f'' where "Adds f' vs = Inr f''" and "extends f' f''" by blast
    with a' c show ?thesis by (blast intro: extends_Contains)
  qed
  with s c show ?thesis by blast
qed

text \<open>The same at a filter of 100 bits with two keys and the element of hash 3.\<close>

theorem Add_Contains_no_false_negative_witness:
  "invariant \<lparr>bits = [0, 0], keys = [5, 200], m = 100, n = 0\<rparr> \<and>
   (\<exists>f'. Add \<lparr>bits = [0, 0], keys = [5, 200], m = 100, n = 0\<rparr> (Hashable 3) = Inr f' \<and>
         Contains f' (Hashable 3) = Inr True \<and>
         (\<forall>vs. \<exists>f''. Adds f' vs = Inr f'' \<and> Contains f'' (Hashable 3) = Inr True))"
proof -
  have h: "invariant \<lparr>bits = [0, 0], keys = [5, 200], m = 100, n = 0\<rparr>"
    by (simp add: invariant_def)
  show ?thesis using h Add_Contains_no_false_negative [OF h, of "Hashable 3"] by blast
qed

section \<open>Wrap-around of the bit index\<close>

text \<open>  C9, wraparound determinism. For an index \<open>i \<ge> m\<close>, \<^verbatim>\<open>getBit(i)\<close> returns what
  \<^verbatim>\<open>getBit(i mod m)\<close> returns and \<^verbatim>\<open>setBit(i)\<close> leaves the filter in the state
  \<^verbatim>\<open>setBit(i mod m)\<close> leaves it in (for \<open>m = 0\<close> both sides are the same panic).\<close>

theorem getBit_setBit_wrap:
  assumes "m f \<le> i"
  shows "getBit f i = getBit f (i mod m f) \<and> setBit f i = setBit f (i mod m f)"
proof (cases "m f = 0")
  case True
  then show ?thesis by (simp add: getBit_def setBit_def)
next
  case False
  then have "i mod m f < m f" by (simp add: word_mod_less_divisor word_neq_0_conv)
  then have "\<not> m f \<le> i mod m f" by simp
  with assms False show ?thesis by (simp add: getBit_def setBit_def)
qed

text \<open>Index 1267 on a filter of 100 bits.\<close>

theorem getBit_setBit_wrap_witness:
  "m \<lparr>bits = [0, 8], keys = [5, 200], m = 100, n = 1\<rparr> \<le> 1267 \<and>
   getBit \<lparr>bits = [0, 8], keys = [5, 200], m = 100, n = 1\<rparr> 1267 =
     getBit \<lparr>bits = [0, 8], keys = [5, 200], m = 100, n = 1\<rparr>
       (1267 mod m \<lparr>bits = [0, 8], keys = [5, 200], m = 100, n = 1\<rparr>) \<and>
   setBit \<lparr>bits = [0, 8], keys = [5, 200], m = 100, n = 1\<rparr> 1267 =
     setBit \<lparr>bits = [0, 8], keys = [5, 200], m = 100, n = 1\<rparr>
       (1267 mod m \<lparr>bits = [0, 8], keys = [5, 200], m = 100, n = 1\<rparr>)"
proof -
  have h: "m \<lparr>bits = [0, 8], keys = [5, 200], m = 100, n = 1\<rparr> \<le> 1267"
    by (simp add: word_le_nat_alt)
  from h getBit_setBit_wrap [OF h] show ?thesis by blast
qed

section \<open>What getBit reads\<close>

text \<open>  C3, \<^verbatim>\<open>getBit\<close> addresses a single bit. \<^verbatim>\<open>getBit\<close> compares the shifted word with
  zero without masking it, so it is true as soon as the addressed bit or any higher bit
  of the same word is set. On a 64-bit filter with an empty bit array \<^verbatim>\<open>getBit(0)\<close> is
  false; after \<^verbatim>\<open>setBit(1)\<close> the word is 2, bit 0 is still clear, and \<^verbatim>\<open>getBit(0)\<close> is
  true although 0 and 1 are not congruent modulo 64. Through the public operations:
  after adding the element of hash 1, the element of hash 0 is reported as contained.\<close>

theorem getBit_not_single_bit:
  "getBit \<lparr>bits = [0], keys = [0], m = 64, n = 0\<rparr> 0 = Inr False \<and>
   setBit \<lparr>bits = [0], keys = [0], m = 64, n = 0\<rparr> 1 = Inr \<lparr>bits = [2], keys = [0], m = 64, n = 0\<rparr> \<and>
   \<not> bit (2 :: u64) 0 \<and>
   getBit \<lparr>bits = [2], keys = [0], m = 64, n = 0\<rparr> 0 = Inr True \<and>
   Add \<lparr>bits = [0], keys = [0], m = 64, n = 0\<rparr> (Hashable 1) = Inr \<lparr>bits = [2], keys = [0], m = 64, n = 1\<rparr> \<and>
   Contains \<lparr>bits = [2], keys = [0], m = 64, n = 1\<rparr> (Hashable 0) = Inr True"
  by (simp add: getBit_def setBit_def Add_def Contains_def hash_def)

section \<open>Construction and the word count\<close>

lemma word_count_no_wrap:
  assumes "unat (x :: u64) + 63 < 2 ^ 64"
  shows "unat (drop_bit 6 (x + 63)) = (unat x + 63) div 64"
proof -
  from assms have "unat (x + 63) = unat x + 63"
    by (simp add: unat_word_ariths)
  then show ?thesis by (simp add: drop_bit_eq_div unat_div)
qed

lemma New_in_range:
  assumes "1 < m0" and "k \<noteq> 0" and "unat m0 + 63 < 2 ^ 64"
  shows "\<exists>f. New r m0 k = Inr f \<and> invariant f \<and> m f = m0 \<and> n f = 0 \<and> K f = unat k \<and>
             bits f = replicate ((unat m0 + 63) div 64) 0"
proof -
  from assms(2) have "unat k \<noteq> 0" by (simp add: unat_eq_0)
  then have "newKeys r k \<noteq> []" by (simp add: newKeys_def)
  moreover from assms(1) have "\<not> m0 \<le> 1" by simp
  ultimately show ?thesis
    using assms(1,2) word_count_no_wrap [OF assms(3)]
    by (simp add: New_def invariant_def K_def newKeys_def)
qed

lemma Contains_all_zero:
  assumes a: "addressable f" and k: "keys f \<noteq> []" and z: "\<forall>w\<in>set (bits f). w = 0"
  shows "Contains f e = Inr False"
proof -
  from k obtain h hs where h: "hash f e = h # hs"
    by (cases "keys f") (simp_all add: hash_def Let_def)
  have "bits f ! unat (drop_bit 6 (wrap f h)) = 0"
    using z word_index_in_range [OF a, of h] by simp
  then have "getBit f h = Inr False" by (simp add: getBit_addressable [OF a])
  with h show ?thesis by (simp add: Contains_def)
qed

lemma New_in_range_Contains:
  assumes "1 < m0" and "k \<noteq> 0" and "unat m0 + 63 < 2 ^ 64"
  shows "\<exists>f. New r m0 k = Inr f \<and> Contains f e = Inr False"
proof -
  from New_in_range [OF assms, of r]
  obtain f where f: "New r m0 k = Inr f" and i: "invariant f"
    and b: "bits f = replicate ((unat m0 + 63) div 64) 0" by blast
  from i have "keys f \<noteq> []" by (simp add: invariant_def)
  moreover from b have "\<forall>w\<in>set (bits f). w = 0" by simp
  ultimately have "Contains f e = Inr False"
    using invariant_addressable [OF i] by (simp add: Contains_all_zero)
  with f show ?thesis by blast
qed

lemma max_not_le_1: "\<not> (0xFFFFFFFFFFFFFFFF :: u64) \<le> 1"
  by (simp add: word_le_nat_alt)

text \<open>  C4, word-count invariant. \<^verbatim>\<open>New\<close> computes the word count as \<^verbatim>\<open>(m+63)>>6\<close> in
  \<^verbatim>\<open>uint64\<close>, and the sum wraps for the 63 largest values of \<open>m\<close>. For
  \<open>m = 2^64 - 1\<close> and one key, \<^verbatim>\<open>New\<close> returns a filter whose bit array has no word
  at all, where \<open>ceil(m/64)\<close> is \<open>2^58\<close>.\<close>

theorem New_word_count_wraps:
  "New r 0xFFFFFFFFFFFFFFFF 1 =
     Inr \<lparr>bits = [], keys = newKeys r 1, m = 0xFFFFFFFFFFFFFFFF, n = 0\<rparr> \<and>
   (unat (0xFFFFFFFFFFFFFFFF :: u64) + 63) div 64 = 2 ^ 58"
  by (simp add: New_def max_not_le_1)

text \<open>  C10, an empty filter contains nothing. On the filter \<^verbatim>\<open>New\<close> returns for
  \<open>m = 2^64 - 1\<close> and one key, \<^verbatim>\<open>Contains\<close> indexes the empty bit array and panics
  for every element, instead of returning false. (For \<open>m + 63 < 2^64\<close> it returns
  false, as shown above.)\<close>

theorem New_huge_Contains_panics:
  "\<exists>f. New r 0xFFFFFFFFFFFFFFFF 1 = Inr f \<and> Contains f e = Inl IndexOutOfRange"
  by (simp add: New_def max_not_le_1 Contains_def hash_def newKeys_def getBit_def Let_def)

section \<open>Compatibility and union\<close>

lemma IsCompatible_loop_iff:
  "IsCompatible_loop ks ks2 js \<longleftrightarrow> (\<forall>i\<in>set js. ks ! i = ks2 ! i)"
proof (induction js)
  case Nil
  show ?case by simp
next
  case (Cons j js)
  then show ?case by simp
qed

lemma IsCompatible_iff: "IsCompatible f f2 \<longleftrightarrow> m f = m f2 \<and> keys f = keys f2"
proof -
  have "keys f = keys f2 \<longleftrightarrow>
        length (keys f) = length (keys f2) \<and> (\<forall>i<length (keys f). keys f ! i = keys f2 ! i)"
    by (rule list_eq_iff_nth_eq)
  then show ?thesis
    by (auto simp: IsCompatible_def M_def K_def IsCompatible_loop_iff)
qed

lemma copy_slice_same_length: "length src = k \<Longrightarrow> copy_slice (replicate k x) src = src"
  by (simp add: copy_slice_def)

lemma invariant_no_wrap:
  assumes "invariant f" and "length (bits f) < 2 ^ 58"
  shows "unat (m f) + 63 < 2 ^ 64"
proof -
  from assms have "(unat (m f) + 63) div 64 < 2 ^ 58" by (simp add: invariant_def)
  then show ?thesis by simp
qed

lemma Copy_invariant:
  assumes "invariant f" and "length (bits f) < 2 ^ 58"
  shows "Copy f = f"
proof -
  from assms have "unat (drop_bit 6 (m f + 63)) = length (bits f)"
    by (simp add: word_count_no_wrap [OF invariant_no_wrap] invariant_def)
  then show ?thesis
    by (simp add: Copy_def K_def copy_slice_same_length)
qed

lemma Union_loop_result:
  "i + length xs \<le> length ob \<Longrightarrow>
     \<exists>b. Union_loop ob i xs = Inr b \<and> length b = length ob \<and>
         (\<forall>j<length ob. b ! j = (if i \<le> j \<and> j < i + length xs then ob ! j OR xs ! (j - i) else ob ! j))"
proof (induction xs arbitrary: ob i)
  case Nil
  then show ?case by auto
next
  case (Cons x xs)
  let ?ob = "ob[i := ob ! i OR x]"
  from Cons.prems have i: "i < length ob" and "Suc i + length xs \<le> length ?ob" by simp_all
  from Cons.IH [OF this(2)]
  obtain b where r: "Union_loop ?ob (Suc i) xs = Inr b" and l: "length b = length ob"
    and v: "\<forall>j<length ob. b ! j =
          (if Suc i \<le> j \<and> j < Suc i + length xs then ?ob ! j OR xs ! (j - Suc i) else ?ob ! j)"
    by auto
  have "b ! j = (if i \<le> j \<and> j < i + length (x # xs) then ob ! j OR (x # xs) ! (j - i) else ob ! j)"
    if "j < length ob" for j
  proof (cases "j = i")
    case True
    with v that show ?thesis by simp
  next
    case False
    with v that show ?thesis by (auto simp: nth_Cons')
  qed
  with r l i show ?case by simp
qed

lemma Union_filter_extends:
  assumes i1: "invariant f" and i2: "invariant f2"
    and b: "length (bits f) < 2 ^ 58" and c: "IsCompatible f f2"
  shows "\<exists>out. Union_filter f f2 = Inr (Inr out) \<and> extends f out \<and> extends f2 out"
proof -
  from c have mk: "m f = m f2" "keys f = keys f2" by (simp_all add: IsCompatible_iff)
  with i1 i2 have len: "length (bits f2) = length (bits f)" by (simp add: invariant_def)
  then have "0 + length (bits f2) \<le> length (bits f)" by simp
  from Union_loop_result [OF this]
  obtain w where r: "Union_loop (bits f) 0 (bits f2) = Inr w" and l: "length w = length (bits f)"
    and v: "\<forall>j<length (bits f). w ! j = bits f ! j OR bits f2 ! j"
    using len by auto
  let ?out = "f\<lparr>bits := w\<rparr>"
  from r c have "Union_filter f f2 = Inr (Inr ?out)"
    by (simp add: Union_filter_def Copy_invariant [OF i1 b])
  moreover from l v have "extends f ?out"
    by (simp add: extends_def or.left_idem)
  moreover from l v len mk have "extends f2 ?out"
    by (simp add: extends_def or.left_commute)
  ultimately show ?thesis by blast
qed

lemma Union_filter_invariant:
  assumes "invariant f" and "invariant f2" and "length (bits f) < 2 ^ 58" and "IsCompatible f f2"
  shows "\<exists>out. Union_filter f f2 = Inr (Inr out) \<and> invariant out"
  using Union_filter_extends [OF assms] assms(1) by (blast intro: extends_invariant)

text \<open>  C6, union rejects incompatible filters. When the two filters differ in \<open>m\<close>, in
  the number of keys or in any key, \<^verbatim>\<open>Union\<close> returns the incompatibility error and
  no filter, and it does not panic. It returns before \<^verbatim>\<open>Copy\<close> and before any write, and
  its receiver and argument are values: neither filter is changed.\<close>

theorem Union_filter_incompatible:
  assumes "m f1 \<noteq> m f2 \<or> K f1 \<noteq> K f2 \<or> keys f1 \<noteq> keys f2"
  shows "Union_filter f1 f2 = Inr (Inl ErrIncompatible)"
proof -
  from assms have "\<not> IsCompatible f1 f2" by (auto simp: IsCompatible_iff K_def)
  then show ?thesis by (simp add: Union_filter_def)
qed

text \<open>Two filters that differ in \<open>m\<close> only.\<close>

theorem Union_filter_incompatible_witness:
  "m \<lparr>bits = [72, 0], keys = [5, 200], m = 100, n = 1\<rparr> \<noteq>
     m \<lparr>bits = [0, 1], keys = [5, 200], m = 99, n = 0\<rparr> \<and>
   Union_filter \<lparr>bits = [72, 0], keys = [5, 200], m = 100, n = 1\<rparr>
                \<lparr>bits = [0, 1], keys = [5, 200], m = 99, n = 0\<rparr> = Inr (Inl ErrIncompatible)"
  using Union_filter_incompatible
    [of "\<lparr>bits = [72, 0], keys = [5, 200], m = 100, n = 1\<rparr>"
        "\<lparr>bits = [0, 1], keys = [5, 200], m = 99, n = 0\<rparr>"]
  by simp

text \<open>  C7, union preserves positives. For two compatible filters that satisfy the invariants
  of the data model, \<^verbatim>\<open>Union\<close> returns a filter, and every element that
  \<^verbatim>\<open>Contains\<close> reports on either argument is reported on the result. The bit array is
  shorter than \<open>2^58\<close> words, as every bit array a Go program can allocate is; that
  is when the word count \<^verbatim>\<open>Copy\<close> computes does not wrap.\<close>

theorem Union_filter_keeps_positives:
  assumes "invariant f1" and "invariant f2" and "length (bits f1) < 2 ^ 58"
    and "IsCompatible f1 f2"
    and "Contains f1 e = Inr True \<or> Contains f2 e = Inr True"
  shows "\<exists>out. Union_filter f1 f2 = Inr (Inr out) \<and> Contains out e = Inr True"
proof -
  from Union_filter_extends [OF assms(1-4)]
  obtain out where u: "Union_filter f1 f2 = Inr (Inr out)"
    and e1: "extends f1 out" and e2: "extends f2 out" by blast
  from assms(5) have "Contains out e = Inr True"
  proof
    assume "Contains f1 e = Inr True"
    with e1 invariant_addressable [OF assms(1)] show ?thesis by (rule extends_Contains)
  next
    assume "Contains f2 e = Inr True"
    with e2 invariant_addressable [OF assms(2)] show ?thesis by (rule extends_Contains)
  qed
  with u show ?thesis by blast
qed

text \<open>Two filters of 100 bits with the same two keys; the first contains the element of
  hash 3.\<close>

theorem Union_filter_keeps_positives_witness:
  "invariant \<lparr>bits = [72, 0], keys = [5, 200], m = 100, n = 1\<rparr> \<and>
   invariant \<lparr>bits = [0, 1], keys = [5, 200], m = 100, n = 0\<rparr> \<and>
   length (bits \<lparr>bits = [72, 0], keys = [5, 200], m = 100, n = 1\<rparr>) < 2 ^ 58 \<and>
   IsCompatible \<lparr>bits = [72, 0], keys = [5, 200], m = 100, n = 1\<rparr>
                \<lparr>bits = [0, 1], keys = [5, 200], m = 100, n = 0\<rparr> \<and>
   Contains \<lparr>bits = [72, 0], keys = [5, 200], m = 100, n = 1\<rparr> (Hashable 3) = Inr True \<and>
   (\<exists>out. Union_filter \<lparr>bits = [72, 0], keys = [5, 200], m = 100, n = 1\<rparr>
                        \<lparr>bits = [0, 1], keys = [5, 200], m = 100, n = 0\<rparr> = Inr (Inr out) \<and>
          Contains out (Hashable 3) = Inr True)"
proof -
  let ?f1 = "\<lparr>bits = [72, 0], keys = [5, 200], m = 100, n = 1\<rparr>"
  let ?f2 = "\<lparr>bits = [0, 1], keys = [5, 200], m = 100, n = 0\<rparr>"
  have i1: "invariant ?f1" by (simp add: invariant_def)
  have i2: "invariant ?f2" by (simp add: invariant_def)
  have l: "length (bits ?f1) < 2 ^ 58" by simp
  have c: "IsCompatible ?f1 ?f2" by (simp add: IsCompatible_iff)
  have p: "Contains ?f1 (Hashable 3) = Inr True"
    by (simp add: Contains_def hash_def getBit_def)
  from p have "Contains ?f1 (Hashable 3) = Inr True \<or> Contains ?f2 (Hashable 3) = Inr True" ..
  from Union_filter_keeps_positives [OF i1 i2 l c this] i1 i2 l c p show ?thesis by blast
qed

section \<open>Serialization\<close>

lemma binary_Read_Uint32: "\<exists>err. binary_Read buf (Uint32 v) = Inl err"
  by (cases "io_ReadFull buf 4") auto

lemma UnmarshalBinary_fails: "\<exists>err. UnmarshalBinary f d = (f, Some err)"
proof -
  obtain err where "binary_Read d (Uint32 0) = Inl err"
    using binary_Read_Uint32 by blast
  then show ?thesis by (simp add: UnmarshalBinary_def)
qed

lemma UnmarshalBinary_invariant: "invariant f \<Longrightarrow> invariant (fst (UnmarshalBinary f d))"
  using UnmarshalBinary_fails [of f d] by auto

lemma MarshalBinary_eq:
  "MarshalBinary f =
     (PutUint64 (word_of_nat (K f)) @ PutUint64 (n f) @ PutUint64 (m f) @
      concat (map PutUint64 (keys f)) @ concat (map PutUint64 (bits f)), None)"
  by (simp add: MarshalBinary_def)

lemma length_PutUint64: "length (PutUint64 v) = 8"
  by (simp add: PutUint64_def)

text \<open>  C2, serialization round-trip. \<^verbatim>\<open>MarshalBinary\<close> succeeds on every filter, and
  \<^verbatim>\<open>UnmarshalBinary\<close> fails on its output, whatever the receiver: the first
  \<^verbatim>\<open>binary.Read\<close> is given \<^verbatim>\<open>k\<close> by value and returns the invalid-type error. Nothing is
  decoded and the receiver is left as it was.\<close>

theorem UnmarshalBinary_MarshalBinary_fails:
  "snd (MarshalBinary f) = None \<and>
   UnmarshalBinary g (fst (MarshalBinary f)) = (g, Some ErrInvalidType)"
proof -
  let ?d = "fst (MarshalBinary f)"
  have "4 \<le> length ?d" by (simp add: MarshalBinary_eq length_PutUint64)
  then have "binary_Read ?d (Uint32 0) = Inl ErrInvalidType"
    by (auto simp: io_ReadFull_def)
  then show ?thesis by (simp add: UnmarshalBinary_def MarshalBinary_eq)
qed

text \<open>  C5, decode atomicity. Whenever \<^verbatim>\<open>UnmarshalBinary\<close> returns an error, the receiver
  has the \<open>m\<close>, \<open>n\<close>, keys and bit array it had before the call.\<close>

theorem UnmarshalBinary_failure_keeps_receiver:
  "snd (UnmarshalBinary f d) \<noteq> None \<Longrightarrow> fst (UnmarshalBinary f d) = f"
  using UnmarshalBinary_fails [of f d] by auto

text \<open>A truncated input of two bytes.\<close>

theorem UnmarshalBinary_failure_keeps_receiver_witness:
  "snd (UnmarshalBinary \<lparr>bits = [0, 8], keys = [5, 200], m = 100, n = 1\<rparr> [1, 2]) \<noteq> None \<and>
   fst (UnmarshalBinary \<lparr>bits = [0, 8], keys = [5, 200], m = 100, n = 1\<rparr> [1, 2]) =
     \<lparr>bits = [0, 8], keys = [5, 200], m = 100, n = 1\<rparr>"
proof -
  have h: "snd (UnmarshalBinary \<lparr>bits = [0, 8], keys = [5, 200], m = 100, n = 1\<rparr> [1, 2]) \<noteq> None"
    by (simp add: UnmarshalBinary_def io_ReadFull_def)
  from h UnmarshalBinary_failure_keeps_receiver [OF h] show ?thesis by blast
qed

section \<open>The formula of OptimalM\<close>

lemma exp_693_less_2: "exp (693 / 1000 :: real) < 2"
proof -
  obtain t :: real where t: "\<bar>t\<bar> \<le> \<bar>693 / 1000\<bar>"
    and e: "exp (693 / 1000 :: real) = (\<Sum>m<8. (693 / 1000) ^ m / fact m) + (exp t / fact 8) * (693 / 1000) ^ 8"
    using Maclaurin_exp_le [of "693 / 1000" 8] by blast
  from t have "t \<le> 1" by simp
  then have "exp t \<le> exp 1" by simp
  also have "\<dots> \<le> 3" by (rule exp_le)
  finally have "exp t \<le> 3" .
  then have "(exp t / fact 8) * (693 / 1000) ^ 8 \<le> (3 / fact 8) * (693 / 1000) ^ 8"
    by (intro mult_right_mono divide_right_mono) simp_all
  moreover have "(\<Sum>m<8. (693 / 1000 :: real) ^ m / fact m) + (3 / fact 8) * (693 / 1000) ^ 8 < 2"
    by (simp add: lessThan_nat_numeral lessThan_Suc fact_numeral power_divide)
  ultimately show ?thesis using e by linarith
qed

lemma exp_6932_greater_2: "2 < exp (6932 / 10000 :: real)"
proof -
  obtain t :: real
    where e: "exp (6932 / 10000 :: real) =
      (\<Sum>m<7. (6932 / 10000) ^ m / fact m) + (exp t / fact 7) * (6932 / 10000) ^ 7"
    using Maclaurin_exp_le [of "6932 / 10000" 7] by blast
  have "0 \<le> (exp t / fact 7) * (6932 / 10000 :: real) ^ 7" by simp
  moreover have "2 < (\<Sum>m<7. (6932 / 10000 :: real) ^ m / fact m)"
    by (simp add: lessThan_nat_numeral lessThan_Suc fact_numeral power_divide)
  ultimately show ?thesis using e by linarith
qed

lemma ln2_bounds: "693 / 1000 < ln (2 :: real) \<and> ln (2 :: real) < 6932 / 10000"
proof -
  have "exp (693 / 1000 :: real) < exp (ln 2)" using exp_693_less_2 by simp
  then have "693 / 1000 < ln (2 :: real)" by (simp only: exp_less_cancel_iff)
  moreover have "exp (ln 2) < exp (6932 / 10000 :: real)" using exp_6932_greater_2 by simp
  then have "ln (2 :: real) < 6932 / 10000" by (simp only: exp_less_cancel_iff)
  ultimately show ?thesis ..
qed

lemma roundsD: "rounds fl \<Longrightarrow> 1 / 1000 \<le> x \<Longrightarrow> x \<le> 1000 \<Longrightarrow> \<bar>fl x - x\<bar> \<le> x / 10000"
  unfolding rounds_def by (metis abs_of_nonneg divide_nonneg_nonneg order_trans zero_le_numeral zero_le_one)

lemma OptimalM_real_value:
  assumes r: "rounds fl" and l: "approximates_ln Log"
  shows "69 < fl (fl (fl (- fl 100 * Log (1 / 2)) / fl (ln 2)) * fl (ln 2)) \<and>
         fl (fl (fl (- fl 100 * Log (1 / 2)) / fl (ln 2)) * fl (ln 2)) \<le> 70"
proof -
  define v where "v = fl 100"
  define lg where "lg = - Log (1 / 2)"
  define L where "L = fl (ln 2)"
  define a where "a = fl (v * lg)"
  define b where "b = fl (a / L)"
  define c where "c = fl (b * L)"
  note ln2 = ln2_bounds
  have "\<bar>v - 100\<bar> \<le> 100 / 10000"
    using roundsD [OF r, of 100] by (simp add: v_def)
  then have v: "9999 / 100 \<le> v" "v \<le> 10001 / 100" by linarith+
  have "ln (1 / 2 :: real) = - ln 2" by (simp add: ln_div)
  moreover have "\<bar>Log (1 / 2) - ln (1 / 2)\<bar> \<le> \<bar>ln (1 / 2 :: real)\<bar> / 10000"
  proof -
    from l have "1 / 1000 \<le> (1 / 2 :: real) \<and> (1 / 2 :: real) \<le> 1000 \<longrightarrow>
        \<bar>Log (1 / 2) - ln (1 / 2)\<bar> \<le> \<bar>ln (1 / 2 :: real)\<bar> / 10000"
      unfolding approximates_ln_def by (rule spec)
    then show ?thesis by simp
  qed
  ultimately have "\<bar>- lg + ln 2\<bar> \<le> \<bar>- ln (2 :: real)\<bar> / 10000"
    by (simp add: lg_def)
  with ln2 have lg: "6929 / 10000 \<le> lg" "lg \<le> 6933 / 10000"
    by linarith+
  have Lb: "\<bar>L - ln 2\<bar> \<le> ln 2 / 10000"
    using roundsD [OF r, of "ln 2"] ln2 by (simp add: L_def)
  with ln2 have L: "6929 / 10000 \<le> L" "L \<le> 6933 / 10000"
    by linarith+
  have "9999 / 100 * (6929 / 10000) \<le> v * lg"
    using v lg by (intro mult_mono) simp_all
  moreover have "v * lg \<le> 10001 / 100 * (6933 / 10000)"
    using v lg by (intro mult_mono) simp_all
  ultimately have y: "6928 / 100 \<le> v * lg" "v * lg \<le> 6934 / 100" by simp_all
  then have "\<bar>a - v * lg\<bar> \<le> v * lg / 10000"
    unfolding a_def by (intro roundsD [OF r]) simp_all
  with y have a: "6927 / 100 \<le> a" "a \<le> 6935 / 100" by linarith+
  from L have Lpos: "0 < L" by simp
  have q: "1 / 1000 \<le> a / L" "a / L \<le> 1000"
    using a L Lpos by (simp_all add: field_simps)
  then have "\<bar>b - a / L\<bar> \<le> a / L / 10000"
    unfolding b_def by (intro roundsD [OF r]) simp_all
  then have "\<bar>b - a / L\<bar> * L \<le> a / L / 10000 * L"
    using Lpos by (intro mult_right_mono) simp_all
  moreover have "\<bar>b - a / L\<bar> * L = \<bar>b * L - a\<bar>"
    using Lpos by (simp add: abs_mult [symmetric] field_simps)
  moreover have "a / L / 10000 * L = a / 10000" using Lpos by simp
  ultimately have "\<bar>b * L - a\<bar> \<le> a / 10000" by simp
  with a have z: "6926 / 100 \<le> b * L" "b * L \<le> 6936 / 100" by linarith+
  then have "\<bar>c - b * L\<bar> \<le> b * L / 10000"
    unfolding c_def by (intro roundsD [OF r]) simp_all
  with z have "69 < c" "c \<le> 70" by linarith+
  then show ?thesis by (simp add: c_def b_def a_def L_def lg_def v_def)
qed

text \<open>
  C8, the formula of \<^verbatim>\<open>OptimalM\<close>. For \<open>maxN = 100\<close> and \<open>p = 0.5\<close>, with any
  rounding and any logarithm of the accuracy above, the code returns 70: the division
  by \<^verbatim>\<open>math.Ln2\<close> and the multiplication by \<^verbatim>\<open>math.Ln2\<close> cancel up to rounding and
  leave \<open>ceil(-maxN * ln p)\<close>, here \<open>ceil(69.31)\<close>. The specification's formula
  gives 49 there, and the formula in the source's own comment gives 145.
\<close>

theorem OptimalM_100_half:
  assumes "rounds fl" and "approximates_ln Log"
  shows "OptimalM fl Log 100 (1 / 2) = Some 70 \<and>
         OptimalM_spec 100 (1 / 2) = 49 \<and> OptimalM_comment 100 (1 / 2) = 145"
proof -
  note ln2 = ln2_bounds
  have neg: "ln (1 / 2 :: real) = - ln 2" by (simp add: ln_div)
  let ?c = "fl (fl (fl (- fl 100 * Log (1 / 2)) / fl (ln 2)) * fl (ln 2))"
  from OptimalM_real_value [OF assms] have c: "69 < ?c" "?c \<le> 70" by simp_all
  then have "\<lceil>?c\<rceil> = 70" by (simp add: ceiling_eq_iff)
  with c have 1: "OptimalM fl Log 100 (1 / 2) = Some 70"
    by (simp add: OptimalM_def Let_def)
  have "(693 / 1000) * (693 / 1000) < ln 2 * ln (2 :: real)"
    using ln2 by (intro mult_strict_mono) simp_all
  moreover have "ln 2 * ln (2 :: real) < (6932 / 10000) * (6932 / 10000)"
    using ln2 by (intro mult_strict_mono) simp_all
  ultimately have sq: "48 / 100 < ln 2 * ln (2 :: real)" "ln 2 * ln (2 :: real) \<le> 49 / 100"
    by simp_all
  then have 2: "OptimalM_spec 100 (1 / 2) = 49"
    by (simp add: OptimalM_spec_def neg ceiling_eq_iff)
  have "144 * ln 2 < (100 :: real)" "100 \<le> 145 * ln (2 :: real)" using ln2 by simp_all
  then have "144 < 100 / ln (2 :: real)" "100 / ln (2 :: real) \<le> 145"
    using ln2 by (simp_all add: field_simps)
  moreover have "100 * ln 2 / (ln (2 :: real))\<^sup>2 = 100 / ln 2"
    using ln2 by (simp add: power2_eq_square)
  ultimately have 3: "OptimalM_comment 100 (1 / 2) = 145"
    by (simp add: OptimalM_comment_def neg ceiling_eq_iff)
  from 1 2 3 show ?thesis by simp
qed

text \<open>The same with exact arithmetic in the place of the rounding and of
  \<^verbatim>\<open>math.Log\<close>.\<close>

theorem OptimalM_100_half_witness:
  "rounds (\<lambda>x. x) \<and> approximates_ln ln \<and>
   OptimalM (\<lambda>x. x) ln 100 (1 / 2) = Some 70 \<and>
   OptimalM_spec 100 (1 / 2) = 49 \<and> OptimalM_comment 100 (1 / 2) = 145"
proof -
  have r: "rounds (\<lambda>x. x)" by (simp add: rounds_def)
  have l: "approximates_ln ln" by (simp add: approximates_ln_def)
  from r l OptimalM_100_half [OF r l] show ?thesis by blast
qed

end
